theory Spec2Isabelle
  imports Complex_Main
begin

section \<open>The fuzzy voice-command matcher of script.js\<close>

text \<open>
  The matcher of the portfolio script consists of four methods:
  \<^verbatim>\<open>levenshteinDistance\<close>, \<^verbatim>\<open>calculateSimilarity\<close>, \<^verbatim>\<open>findBestMatch\<close> and the dispatcher
  \<^verbatim>\<open>processVoiceCommand\<close>.

  A JavaScript string is a finite sequence of UTF-16 code units. The matcher only takes
  lengths and compares single code units, so a string is a list over an arbitrary type
  \<open>'a\<close> of code units. String literals of the script are embedded by a parameter
  \<open>lit\<close> where they are needed.

  The table cells and string lengths are natural numbers (exact in a JavaScript number
  below \<open>2^53\<close>). A score is the quotient of two such numbers; it is modelled as a
  rational number. The script computes the correctly rounded double of that quotient.
  Rounding is monotone, it is exact at 0 and 1, and two different quotients with
  denominators below \<open>2^26\<close> differ by more than the spacing of doubles in \<open>[0, 1]\<close>,
  so on such strings the comparisons of scores and the comparison with the literal
  \<^verbatim>\<open>0.6\<close> have the same outcome on doubles and on rationals.
\<close>

subsection \<open>The table of levenshteinDistance\<close>

text \<open>
  \<^verbatim>\<open>matrix\<close> is an array of arrays. A JavaScript array is a partial map from indices to
  values: writing at a new index adds the index, reading an absent index gives
  \<^verbatim>\<open>undefined\<close>, and reading an index of \<^verbatim>\<open>undefined\<close> (an absent row) throws a
  TypeError. The model stops with \<open>UndefinedValue\<close> at the first read of an absent cell,
  where the script would go on with \<^verbatim>\<open>undefined\<close> or \<^verbatim>\<open>NaN\<close>.
\<close>

datatype fault = TypeError | UndefinedValue

type_synonym row = "nat \<rightharpoonup> nat"
type_synonym matrix = "nat \<rightharpoonup> row"

definition read_cell :: "matrix \<Rightarrow> nat \<Rightarrow> nat \<Rightarrow> fault + nat" where
  "read_cell m i j =
     (case m i of
        None \<Rightarrow> Inl TypeError
      | Some r \<Rightarrow> (case r j of None \<Rightarrow> Inl UndefinedValue | Some v \<Rightarrow> Inr v))"

definition write_cell :: "matrix \<Rightarrow> nat \<Rightarrow> nat \<Rightarrow> nat \<Rightarrow> fault + matrix" where
  "write_cell m i j v =
     (case m i of
        None \<Rightarrow> Inl TypeError
      | Some r \<Rightarrow> Inr (m(i \<mapsto> r(j \<mapsto> v))))"

text \<open>\<^verbatim>\<open>s.charAt(k)\<close> is the string of the one code unit at index \<open>k\<close>, or the empty string.\<close>

definition charAt :: "'a list \<Rightarrow> nat \<Rightarrow> 'a list" where
  "charAt s k = (if k < length s then [s ! k] else [])"

text \<open>\<^verbatim>\<open>for (let i = 0; i <= str2.length; i++) { matrix[i] = [i]; }\<close>\<close>

function init_rows :: "nat \<Rightarrow> nat \<Rightarrow> matrix \<Rightarrow> matrix" where
  "init_rows n i m = (if i \<le> n then init_rows n (Suc i) (m(i \<mapsto> [0 \<mapsto> i])) else m)"
  by pat_completeness auto
termination
  by (relation "measure (\<lambda>(n, i, m). Suc n - i)") auto

text \<open>\<^verbatim>\<open>for (let j = 0; j <= str1.length; j++) { matrix[0][j] = j; }\<close>\<close>

function init_cols :: "nat \<Rightarrow> nat \<Rightarrow> matrix \<Rightarrow> fault + matrix" where
  "init_cols n j m =
     (if j \<le> n then
        (case write_cell m 0 j j of
           Inl e \<Rightarrow> Inl e
         | Inr m' \<Rightarrow> init_cols n (Suc j) m')
      else Inr m)"
  by pat_completeness auto
termination
  by (relation "measure (\<lambda>(n, j, m). Suc n - j)") auto

text \<open>
  The value stored at \<^verbatim>\<open>matrix[i][j]\<close> by the body of the inner loop; \<open>i\<close> and \<open>j\<close> are
  at least 1 there.
\<close>

definition cell_value :: "'a list \<Rightarrow> 'a list \<Rightarrow> matrix \<Rightarrow> nat \<Rightarrow> nat \<Rightarrow> fault + nat" where
  "cell_value str1 str2 m i j =
     (if charAt str2 (i - 1) = charAt str1 (j - 1) then read_cell m (i - 1) (j - 1)
      else
        (case read_cell m (i - 1) (j - 1) of
           Inl e \<Rightarrow> Inl e
         | Inr a \<Rightarrow>
             (case read_cell m i (j - 1) of
                Inl e \<Rightarrow> Inl e
              | Inr b \<Rightarrow>
                  (case read_cell m (i - 1) j of
                     Inl e \<Rightarrow> Inl e
                   | Inr c \<Rightarrow> Inr (min (a + 1) (min (b + 1) (c + 1)))))))"

text \<open>\<^verbatim>\<open>for (let j = 1; j <= str1.length; j++) { ... }\<close>, the inner loop at row \<open>i\<close>.\<close>

function fill_cols :: "'a list \<Rightarrow> 'a list \<Rightarrow> nat \<Rightarrow> nat \<Rightarrow> matrix \<Rightarrow> fault + matrix" where
  "fill_cols str1 str2 i j m =
     (if j \<le> length str1 then
        (case cell_value str1 str2 m i j of
           Inl e \<Rightarrow> Inl e
         | Inr v \<Rightarrow>
             (case write_cell m i j v of
                Inl e \<Rightarrow> Inl e
              | Inr m' \<Rightarrow> fill_cols str1 str2 i (Suc j) m'))
      else Inr m)"
  by pat_completeness auto
termination
  by (relation "measure (\<lambda>(str1, str2, i, j, m). Suc (length str1) - j)") auto

text \<open>\<^verbatim>\<open>for (let i = 1; i <= str2.length; i++) { ... }\<close>, the outer loop.\<close>

function fill_rows :: "'a list \<Rightarrow> 'a list \<Rightarrow> nat \<Rightarrow> matrix \<Rightarrow> fault + matrix" where
  "fill_rows str1 str2 i m =
     (if i \<le> length str2 then
        (case fill_cols str1 str2 i 1 m of
           Inl e \<Rightarrow> Inl e
         | Inr m' \<Rightarrow> fill_rows str1 str2 (Suc i) m')
      else Inr m)"
  by pat_completeness auto
termination
  by (relation "measure (\<lambda>(str1, str2, i, m). Suc (length str2) - i)") auto

definition levenshteinDistance :: "'a list \<Rightarrow> 'a list \<Rightarrow> fault + nat" where
  "levenshteinDistance str1 str2 =
     (case init_cols (length str1) 0 (init_rows (length str2) 0 Map.empty) of
        Inl e \<Rightarrow> Inl e
      | Inr m1 \<Rightarrow>
          (case fill_rows str1 str2 1 m1 of
             Inl e \<Rightarrow> Inl e
           | Inr m2 \<Rightarrow> read_cell m2 (length str2) (length str1)))"

subsection \<open>calculateSimilarity\<close>

definition calculateSimilarity :: "'a list \<Rightarrow> 'a list \<Rightarrow> fault + rat" where
  "calculateSimilarity str1 str2 =
     (let longer = (if length str1 > length str2 then str1 else str2);
          shorter = (if length str1 > length str2 then str2 else str1)
      in if length longer = 0 then Inr 1
         else
           (case levenshteinDistance longer shorter of
              Inl e \<Rightarrow> Inl e
            | Inr distance \<Rightarrow>
                Inr ((of_nat (length longer) - of_nat distance) / of_nat (length longer))))"

subsection \<open>findBestMatch\<close>

text \<open>The object \<^verbatim>\<open>{ command, score }\<close>; \<open>None\<close> is \<^verbatim>\<open>null\<close>.\<close>

record 'a match =
  command :: "'a list option"
  score :: rat

text \<open>
  \<^verbatim>\<open>commands.forEach(command => { ... })\<close> visits the array in index order; \<open>bestMatch\<close>
  is the variable the callback assigns.
\<close>

fun forEach_command :: "'a list \<Rightarrow> 'a list list \<Rightarrow> 'a match \<Rightarrow> fault + 'a match" where
  "forEach_command input [] bestMatch = Inr bestMatch"
| "forEach_command input (c # commands) bestMatch =
     (case calculateSimilarity input c of
        Inl e \<Rightarrow> Inl e
      | Inr s \<Rightarrow>
          forEach_command input commands
            (if s > score bestMatch then \<lparr>command = Some c, score = s\<rparr> else bestMatch))"

definition findBestMatch :: "'a list \<Rightarrow> 'a list list \<Rightarrow> fault + 'a match" where
  "findBestMatch input commands = forEach_command input commands \<lparr>command = None, score = 0\<rparr>"

subsection \<open>processVoiceCommand\<close>

text \<open>
  \<^verbatim>\<open>this.config.voiceCommands\<close> is an object from phrases to actions; it is given as the
  list of its properties in the order \<^verbatim>\<open>Object.keys\<close> enumerates them, with actions as
  opaque tokens. What the dispatcher does is the list of its effects, in order; an
  exception ends the list. \<open>lit\<close> embeds the string literals of the script;
  \<^verbatim>\<open>null\<close> becomes the string \<^verbatim>\<open>null\<close> in a template and as a property key. The
  object \<open>bestMatch\<close> is always truthy.
\<close>

datatype ('a, 'act) effect =
  ShowNotification "'a list" "'a list"
| Invoke 'act
| Raised fault

definition processVoiceCommand ::
  "(string \<Rightarrow> 'a list) \<Rightarrow> ('a list \<times> 'act) list \<Rightarrow> 'a list \<Rightarrow> ('a, 'act) effect list" where
  "processVoiceCommand lit voiceCommands cmd =
     (let commands = map fst voiceCommands in
      case findBestMatch cmd commands of
        Inl e \<Rightarrow> [Raised e]
      | Inr bestMatch \<Rightarrow>
          if score bestMatch > 6 / 10 then
            (let key = (case command bestMatch of None \<Rightarrow> lit ''null'' | Some c \<Rightarrow> c) in
             ShowNotification (lit ''Executing: '' @ key) (lit ''success'') #
             (case map_of voiceCommands key of
                None \<Rightarrow> [Raised TypeError]
              | Some act \<Rightarrow> [Invoke act]))
          else [ShowNotification (lit ''Command not recognized'') (lit ''warning'')])"

section \<open>The specification's notion of edit distance\<close>

text \<open>
  One edit operation changes a string at one position: it inserts one code unit, deletes
  one, or replaces one by another. \<open>spec_edits n a b\<close> says that \<open>n\<close> such operations,
  one after the other, transform \<open>a\<close> into \<open>b\<close>. There is no transposition.
\<close>

inductive spec_edit1 :: "'a list \<Rightarrow> 'a list \<Rightarrow> bool" where
  insertion: "spec_edit1 (xs @ ys) (xs @ c # ys)"
| deletion: "spec_edit1 (xs @ c # ys) (xs @ ys)"
| substitution: "spec_edit1 (xs @ c # ys) (xs @ c' # ys)"

definition spec_edits :: "nat \<Rightarrow> 'a list \<Rightarrow> 'a list \<Rightarrow> bool" where
  "spec_edits n = spec_edit1 ^^ n"

section \<open>Auxiliary functions of the proofs\<close>

text \<open>
  The recursion on the first code units that the table of \<^verbatim>\<open>levenshteinDistance\<close>
  tabulates (on prefixes), the content of a table cell, the value the table holds at
  \<open>(i, j)\<close> when it is filled, and the score as a closed term.
\<close>

fun lev_rec :: "'a list \<Rightarrow> 'a list \<Rightarrow> nat" where
  "lev_rec [] ys = length ys"
| "lev_rec (x # xs) [] = Suc (length xs)"
| "lev_rec (x # xs) (y # ys) =
     (if x = y then lev_rec xs ys
      else Suc (min (lev_rec xs ys) (min (lev_rec (x # xs) ys) (lev_rec xs (y # ys)))))"

definition cell :: "matrix \<Rightarrow> nat \<Rightarrow> nat \<Rightarrow> nat option" where
  "cell m i j = (case m i of None \<Rightarrow> None | Some r \<Rightarrow> r j)"

definition dist_prefix :: "'a list \<Rightarrow> 'a list \<Rightarrow> nat \<Rightarrow> nat \<Rightarrow> nat" where
  "dist_prefix str1 str2 i j = lev_rec (take i str2) (take j str1)"

definition similarity :: "'a list \<Rightarrow> 'a list \<Rightarrow> rat" where
  "similarity a b =
     (if max (length a) (length b) = 0 then 1
      else (of_nat (max (length a) (length b)) - of_nat (lev_rec a b))
             / of_nat (max (length a) (length b)))"

section \<open>The recursion and the edit operations\<close>

lemma lev_rec_Nil2 [simp]: "lev_rec xs [] = length xs"
  by (cases xs) simp_all

lemma lev_rec_sym: "lev_rec xs ys = lev_rec ys xs"
  by (induction xs ys rule: lev_rec.induct) (auto simp: min.commute min.left_commute)

lemma lev_rec_same [simp]: "lev_rec xs xs = 0"
  by (induction xs) simp_all

lemma lev_rec_Cons_Cons_le: "lev_rec (x # xs) (y # ys) \<le> Suc (lev_rec xs ys)"
  by simp

lemma lev_rec_neighbour:
  "lev_rec (x # xs) ys \<le> Suc (lev_rec xs ys) \<and> lev_rec xs ys \<le> Suc (lev_rec (x # xs) ys)"
proof (induction "length xs + length ys" arbitrary: xs ys x rule: less_induct)
  case less
  show ?case
  proof (cases ys)
    case Nil
    then show ?thesis by simp
  next
    case (Cons y ys')
    have a: "lev_rec xs ys' \<le> Suc (lev_rec xs (y # ys'))"
      using less[of ys' xs y] Cons by (simp add: lev_rec_sym[of xs])
    have b: "lev_rec xs (y # ys') \<le> Suc (lev_rec xs ys')"
      using less[of ys' xs y] Cons by (simp add: lev_rec_sym[of xs])
    have c: "lev_rec xs ys' \<le> Suc (lev_rec (x # xs) ys')"
      using less[of xs ys' x] Cons by simp
    show ?thesis using a b c Cons by (auto simp: min_def)
  qed
qed

lemma lev_rec_del: "lev_rec (x # xs) ys \<le> Suc (lev_rec xs ys)"
  by (simp add: lev_rec_neighbour)

lemma lev_rec_ins: "lev_rec xs ys \<le> Suc (lev_rec (x # xs) ys)"
  by (simp add: lev_rec_neighbour)

lemma lev_rec_sub: "lev_rec (c # xs) zs \<le> Suc (lev_rec (c' # xs) zs)"
proof (cases zs)
  case Nil
  then show ?thesis by simp
next
  case (Cons z zs')
  have "lev_rec xs zs' \<le> Suc (lev_rec (c' # xs) zs')" by (rule lev_rec_ins)
  moreover have "lev_rec xs zs' \<le> Suc (lev_rec xs (z # zs'))"
    using lev_rec_ins[of zs' xs z] by (simp add: lev_rec_sym[of xs])
  moreover have "lev_rec (c # xs) (z # zs') \<le> Suc (lev_rec xs (z # zs'))" by (rule lev_rec_del)
  ultimately show ?thesis using Cons by (auto simp: min_def)
qed

lemma lev_rec_cong:
  assumes "\<And>zs. lev_rec as zs \<le> Suc (lev_rec bs zs)"
  shows "lev_rec (x # as) zs \<le> Suc (lev_rec (x # bs) zs)"
proof (induction zs)
  case Nil
  then show ?case using assms[of "[]"] by simp
next
  case (Cons z zs)
  show ?case using assms[of zs] assms[of "z # zs"] Cons by (auto simp: min_def)
qed

lemma lev_rec_prefix:
  assumes "\<And>zs. lev_rec as zs \<le> Suc (lev_rec bs zs)"
  shows "lev_rec (xs @ as) zs \<le> Suc (lev_rec (xs @ bs) zs)"
  using assms by (induction xs arbitrary: zs) (simp_all add: lev_rec_cong)

lemma lev_rec_edit1: "spec_edit1 as bs \<Longrightarrow> lev_rec as zs \<le> Suc (lev_rec bs zs)"
proof (induction rule: spec_edit1.induct)
  case (insertion xs ys c)
  show ?case by (rule lev_rec_prefix) (rule lev_rec_ins)
next
  case (deletion xs c ys)
  show ?case by (rule lev_rec_prefix) (rule lev_rec_del)
next
  case (substitution xs c ys c')
  show ?case by (rule lev_rec_prefix) (rule lev_rec_sub)
qed

lemma spec_edits_0 [simp]: "spec_edits 0 as bs \<longleftrightarrow> as = bs"
  by (auto simp: spec_edits_def)

lemma spec_edits_Suc: "spec_edits (Suc n) as cs \<longleftrightarrow> (\<exists>bs. spec_edit1 as bs \<and> spec_edits n bs cs)"
  by (auto simp: spec_edits_def relpowp_commute[symmetric])

lemma spec_edits_step_last: "spec_edits n as bs \<Longrightarrow> spec_edit1 bs cs \<Longrightarrow> spec_edits (Suc n) as cs"
  by (auto simp: spec_edits_def)

lemma lev_rec_lower: "spec_edits n as bs \<Longrightarrow> lev_rec as bs \<le> n"
proof (induction n arbitrary: as)
  case 0
  then show ?case by simp
next
  case (Suc n)
  then obtain cs where "spec_edit1 as cs" "spec_edits n cs bs"
    by (auto simp: spec_edits_Suc)
  then show ?case using Suc.IH[of cs] lev_rec_edit1[of as cs bs] by simp
qed

lemma spec_edit1_Cons: "spec_edit1 as bs \<Longrightarrow> spec_edit1 (x # as) (x # bs)"
proof (induction rule: spec_edit1.induct)
  case (insertion xs ys c)
  show ?case using spec_edit1.insertion[of "x # xs" ys c] by simp
next
  case (deletion xs c ys)
  show ?case using spec_edit1.deletion[of "x # xs" c ys] by simp
next
  case (substitution xs c ys c')
  show ?case using spec_edit1.substitution[of "x # xs" c ys c'] by simp
qed

lemma spec_edits_Cons: "spec_edits n as bs \<Longrightarrow> spec_edits n (x # as) (x # bs)"
proof (induction n arbitrary: as)
  case 0
  then show ?case by simp
next
  case (Suc n)
  then show ?case by (auto simp: spec_edits_Suc intro: spec_edit1_Cons)
qed

lemma spec_edit1_ins_head: "spec_edit1 ys (y # ys)"
  using spec_edit1.insertion[of "[]" ys y] by simp

lemma spec_edit1_del_head: "spec_edit1 (x # xs) xs"
  using spec_edit1.deletion[of "[]" x xs] by simp

lemma spec_edit1_sub_head: "spec_edit1 (x # xs) (y # xs)"
  using spec_edit1.substitution[of "[]" x xs y] by simp

lemma spec_edits_from_Nil: "spec_edits (length ys) [] ys"
proof (induction ys)
  case Nil
  then show ?case by simp
next
  case (Cons y ys)
  then show ?case using spec_edits_step_last[OF Cons spec_edit1_ins_head[of ys y]] by simp
qed

lemma spec_edits_to_Nil: "spec_edits (length xs) xs []"
proof (induction xs)
  case Nil
  then show ?case by simp
next
  case (Cons x xs)
  then show ?case using spec_edit1_del_head[of x xs] by (auto simp: spec_edits_Suc)
qed

lemma lev_rec_reached: "spec_edits (lev_rec as bs) as bs"
proof (induction as bs rule: lev_rec.induct)
  case (1 ys)
  then show ?case by (simp add: spec_edits_from_Nil)
next
  case (2 x xs)
  then show ?case using spec_edits_to_Nil[of "x # xs"] by simp
next
  case (3 x xs y ys)
  show ?case
  proof (cases "x = y")
    case True
    then show ?thesis using 3 by (simp add: spec_edits_Cons)
  next
    case False
    let ?a = "lev_rec xs ys" and ?b = "lev_rec (x # xs) ys" and ?c = "lev_rec xs (y # ys)"
    have A: "spec_edits (Suc ?a) (x # xs) (y # ys)"
      using spec_edits_Cons[OF 3(2)[OF False], of y] spec_edit1_sub_head[of x xs y]
      by (auto simp: spec_edits_Suc)
    have B: "spec_edits (Suc ?b) (x # xs) (y # ys)"
      using spec_edits_step_last[OF 3(3)[OF False] spec_edit1_ins_head[of ys y]] .
    have C: "spec_edits (Suc ?c) (x # xs) (y # ys)"
      using 3(4)[OF False] spec_edit1_del_head[of x xs]
      by (auto simp: spec_edits_Suc)
    show ?thesis using False A B C by (auto simp: min_def)
  qed
qed

lemma spec_edit1_sym: "spec_edit1 as bs \<Longrightarrow> spec_edit1 bs as"
  by (induction rule: spec_edit1.induct) (auto intro: spec_edit1.intros)

lemma spec_edit1_rev: "spec_edit1 as bs \<Longrightarrow> spec_edit1 (rev as) (rev bs)"
proof (induction rule: spec_edit1.induct)
  case (insertion xs ys c)
  show ?case using spec_edit1.insertion[of "rev ys" "rev xs" c] by simp
next
  case (deletion xs c ys)
  show ?case using spec_edit1.deletion[of "rev ys" c "rev xs"] by simp
next
  case (substitution xs c ys c')
  show ?case using spec_edit1.substitution[of "rev ys" c "rev xs" c'] by simp
qed

lemma spec_edits_rev: "spec_edits n as bs \<Longrightarrow> spec_edits n (rev as) (rev bs)"
proof (induction n arbitrary: as)
  case 0
  then show ?case by simp
next
  case (Suc n)
  then show ?case by (auto simp: spec_edits_Suc intro: spec_edit1_rev)
qed

lemma lev_rec_rev: "lev_rec (rev as) (rev bs) = lev_rec as bs"
proof (rule antisym)
  show "lev_rec (rev as) (rev bs) \<le> lev_rec as bs"
    by (rule lev_rec_lower) (rule spec_edits_rev, rule lev_rec_reached)
  have "spec_edits (lev_rec (rev as) (rev bs)) (rev (rev as)) (rev (rev bs))"
    by (rule spec_edits_rev) (rule lev_rec_reached)
  then show "lev_rec as bs \<le> lev_rec (rev as) (rev bs)"
    using lev_rec_lower by fastforce
qed

lemma lev_rec_le_max: "lev_rec xs ys \<le> max (length xs) (length ys)"
  by (induction xs ys rule: lev_rec.induct) (auto simp: min_def max_def)

section \<open>The table holds the recursion's values\<close>

declare init_rows.simps [simp del] init_cols.simps [simp del]
  fill_cols.simps [simp del] fill_rows.simps [simp del]

lemma read_cell_Some: "cell m i j = Some v \<Longrightarrow> read_cell m i j = Inr v"
  by (auto simp: cell_def read_cell_def split: option.splits)

lemma write_cell_dom:
  "i \<in> dom m \<Longrightarrow> \<exists>m'. write_cell m i j v = Inr m' \<and> dom m' = dom m \<and>
     (\<forall>i' j'. cell m' i' j' = (if i' = i \<and> j' = j then Some v else cell m i' j'))"
  by (auto simp: write_cell_def cell_def split: option.splits)

lemma cell_upd_row: "cell (m(i \<mapsto> r)) i' j' = (if i' = i then r j' else cell m i' j')"
  by (simp add: cell_def)

lemma init_rows_cell:
  "cell (init_rows n i m) i' j' =
     (if i \<le> i' \<and> i' \<le> n then (if j' = 0 then Some i' else None) else cell m i' j')"
proof (induction n i m rule: init_rows.induct)
  case (1 n i m)
  show ?case
  proof (cases "i \<le> n")
    case True
    have "init_rows n i m = init_rows n (Suc i) (m(i \<mapsto> [0 \<mapsto> i]))"
      using True by (subst init_rows.simps) simp
    then have "cell (init_rows n i m) i' j' = cell (init_rows n (Suc i) (m(i \<mapsto> [0 \<mapsto> i]))) i' j'"
      by (simp only:)
    also have "\<dots> = (if Suc i \<le> i' \<and> i' \<le> n then (if j' = 0 then Some i' else None)
                     else cell (m(i \<mapsto> [0 \<mapsto> i])) i' j')"
      by (rule "1.IH"[OF True])
    also have "\<dots> = (if i \<le> i' \<and> i' \<le> n then (if j' = 0 then Some i' else None) else cell m i' j')"
      using True by (auto simp: cell_upd_row)
    finally show ?thesis .
  next
    case False
    then show ?thesis by (subst init_rows.simps) auto
  qed
qed

lemma init_rows_dom: "dom (init_rows n i m) = dom m \<union> {i..n}"
proof (induction n i m rule: init_rows.induct)
  case (1 n i m)
  show ?case
  proof (cases "i \<le> n")
    case True
    have "init_rows n i m = init_rows n (Suc i) (m(i \<mapsto> [0 \<mapsto> i]))"
      using True by (subst init_rows.simps) simp
    then have "dom (init_rows n i m) = dom (init_rows n (Suc i) (m(i \<mapsto> [0 \<mapsto> i])))"
      by (simp only:)
    also have "\<dots> = dom (m(i \<mapsto> [0 \<mapsto> i])) \<union> {Suc i..n}"
      by (rule "1.IH"[OF True])
    also have "\<dots> = dom m \<union> {i..n}"
      using True by auto
    finally show ?thesis .
  next
    case False
    then show ?thesis by (subst init_rows.simps) simp
  qed
qed

lemma init_cols_ok:
  "0 \<in> dom m \<Longrightarrow> \<exists>m'. init_cols n j m = Inr m' \<and> dom m' = dom m \<and>
     (\<forall>i' j'. cell m' i' j' = (if i' = 0 \<and> j \<le> j' \<and> j' \<le> n then Some j' else cell m i' j'))"
proof (induction n j m rule: init_cols.induct)
  case (1 n j m)
  show ?case
  proof (cases "j \<le> n")
    case True
    obtain m1 where w: "write_cell m 0 j j = Inr m1" "dom m1 = dom m"
      "\<And>i' j'. cell m1 i' j' = (if i' = 0 \<and> j' = j then Some j else cell m i' j')"
      using write_cell_dom[OF "1.prems", of j j] by blast
    from "1.IH"[OF True w(1)] "1.prems" w(2)
    obtain m' where r: "init_cols n (Suc j) m1 = Inr m'" "dom m' = dom m1"
      "\<And>i' j'. cell m' i' j' = (if i' = 0 \<and> Suc j \<le> j' \<and> j' \<le> n then Some j' else cell m1 i' j')"
      by auto
    have "init_cols n j m = Inr m'"
      using True w(1) r(1) by (subst init_cols.simps) simp
    moreover have "dom m' = dom m" using r(2) w(2) by simp
    moreover have "cell m' i' j' = (if i' = 0 \<and> j \<le> j' \<and> j' \<le> n then Some j' else cell m i' j')" for i' j'
      using r(3)[of i' j'] w(3)[of i' j'] True by auto
    ultimately show ?thesis by blast
  next
    case False
    then show ?thesis by (subst init_cols.simps) auto
  qed
qed

lemma lev_rec_snoc:
  "lev_rec (xs @ [x]) (ys @ [y]) =
     (if x = y then lev_rec xs ys
      else Suc (min (lev_rec xs ys) (min (lev_rec (xs @ [x]) ys) (lev_rec xs (ys @ [y])))))"
proof -
  have "lev_rec (xs @ [x]) (ys @ [y]) = lev_rec (x # rev xs) (y # rev ys)"
    using lev_rec_rev[of "xs @ [x]" "ys @ [y]"] by simp
  moreover have "lev_rec (rev xs) (rev ys) = lev_rec xs ys" by (rule lev_rec_rev)
  moreover have "lev_rec (x # rev xs) (rev ys) = lev_rec (xs @ [x]) ys"
    using lev_rec_rev[of "xs @ [x]" ys] by simp
  moreover have "lev_rec (rev xs) (y # rev ys) = lev_rec xs (ys @ [y])"
    using lev_rec_rev[of xs "ys @ [y]"] by simp
  ultimately show ?thesis by simp
qed

lemma dist_prefix_0 [simp]: "dist_prefix str1 str2 0 j = min (length str1) j"
  by (simp add: dist_prefix_def)

lemma dist_prefix_0' [simp]: "dist_prefix str1 str2 i 0 = min (length str2) i"
  by (simp add: dist_prefix_def)

lemma dist_prefix_Suc:
  assumes "i < length str2" "j < length str1"
  shows "dist_prefix str1 str2 (Suc i) (Suc j) =
     (if str2 ! i = str1 ! j then dist_prefix str1 str2 i j
      else Suc (min (dist_prefix str1 str2 i j)
                 (min (dist_prefix str1 str2 (Suc i) j) (dist_prefix str1 str2 i (Suc j)))))"
  using assms by (simp add: dist_prefix_def take_Suc_conv_app_nth lev_rec_snoc)

lemma cell_value_ok:
  assumes "1 \<le> i" "i \<le> length str2" "1 \<le> j" "j \<le> length str1"
    and "cell m (i - 1) (j - 1) = Some (dist_prefix str1 str2 (i - 1) (j - 1))"
    and "cell m i (j - 1) = Some (dist_prefix str1 str2 i (j - 1))"
    and "cell m (i - 1) j = Some (dist_prefix str1 str2 (i - 1) j)"
  shows "cell_value str1 str2 m i j = Inr (dist_prefix str1 str2 i j)"
proof -
  obtain i0 j0 where ij: "i = Suc i0" "j = Suc j0" "i0 < length str2" "j0 < length str1"
    using assms(1-4) by (cases i; cases j) auto
  show ?thesis
    using assms(5-7) unfolding ij cell_value_def
    by (simp add: read_cell_Some charAt_def ij(3,4) dist_prefix_Suc[OF ij(3,4)])
qed

lemma fill_cols_ok:
  assumes "1 \<le> i" "i \<le> length str2" "1 \<le> j" "i \<in> dom m"
    and "\<And>j'. j' \<le> length str1 \<Longrightarrow> cell m (i - 1) j' = Some (dist_prefix str1 str2 (i - 1) j')"
    and "\<And>j'. j' < j \<Longrightarrow> j' \<le> length str1 \<Longrightarrow> cell m i j' = Some (dist_prefix str1 str2 i j')"
  shows "\<exists>m'. fill_cols str1 str2 i j m = Inr m' \<and> dom m' = dom m \<and>
     (\<forall>i' j'. i' \<noteq> i \<longrightarrow> cell m' i' j' = cell m i' j') \<and>
     (\<forall>j' \<le> length str1. cell m' i j' = Some (dist_prefix str1 str2 i j'))"
  using assms
proof (induction str1 str2 i j m rule: fill_cols.induct)
  case (1 str1 str2 i j m)
  show ?case
  proof (cases "j \<le> length str1")
    case True
    have v: "cell_value str1 str2 m i j = Inr (dist_prefix str1 str2 i j)"
      using "1.prems" True by (intro cell_value_ok) auto
    obtain m1 where w: "write_cell m i j (dist_prefix str1 str2 i j) = Inr m1" "dom m1 = dom m"
      "\<And>i' j'. cell m1 i' j' = (if i' = i \<and> j' = j then Some (dist_prefix str1 str2 i j) else cell m i' j')"
      using write_cell_dom[OF "1.prems"(4), of j "dist_prefix str1 str2 i j"] by blast
    have "\<exists>m'. fill_cols str1 str2 i (Suc j) m1 = Inr m' \<and> dom m' = dom m1 \<and>
       (\<forall>i' j'. i' \<noteq> i \<longrightarrow> cell m' i' j' = cell m1 i' j') \<and>
       (\<forall>j' \<le> length str1. cell m' i j' = Some (dist_prefix str1 str2 i j'))"
    proof (rule "1.IH"[OF True v w(1)])
      show "1 \<le> i" "i \<le> length str2" "1 \<le> Suc j" using "1.prems"(1,2) by simp_all
      show "i \<in> dom m1" using w(2) "1.prems"(4) by simp
      show "cell m1 (i - 1) j' = Some (dist_prefix str1 str2 (i - 1) j')" if "j' \<le> length str1" for j'
        using that "1.prems"(1,5) w(3)[of "i - 1" j'] by auto
      show "cell m1 i j' = Some (dist_prefix str1 str2 i j')" if "j' < Suc j" "j' \<le> length str1" for j'
        using that "1.prems"(6)[of j'] w(3)[of i j'] by (cases "j' = j") auto
    qed
    then obtain m' where r: "fill_cols str1 str2 i (Suc j) m1 = Inr m'" "dom m' = dom m1"
       "\<And>i' j'. i' \<noteq> i \<Longrightarrow> cell m' i' j' = cell m1 i' j'"
       "\<And>j'. j' \<le> length str1 \<Longrightarrow> cell m' i j' = Some (dist_prefix str1 str2 i j')"
      by blast
    have "fill_cols str1 str2 i j m = Inr m'"
      using True v w(1) r(1) by (subst fill_cols.simps) simp
    moreover have "dom m' = dom m" using r(2) w(2) by simp
    moreover have "cell m' i' j' = cell m i' j'" if "i' \<noteq> i" for i' j'
      using r(3)[OF that, of j'] w(3)[of i' j'] that by simp
    ultimately show ?thesis using r(4) by blast
  next
    case False
    then have "fill_cols str1 str2 i j m = Inr m" by (subst fill_cols.simps) simp
    moreover have "cell m i j' = Some (dist_prefix str1 str2 i j')" if "j' \<le> length str1" for j'
      using that False "1.prems"(6)[of j'] by simp
    ultimately show ?thesis by simp
  qed
qed

lemma fill_rows_ok:
  assumes "1 \<le> i" "{0..length str2} \<subseteq> dom m"
    and "\<And>i' j'. i' < i \<Longrightarrow> i' \<le> length str2 \<Longrightarrow> j' \<le> length str1 \<Longrightarrow>
           cell m i' j' = Some (dist_prefix str1 str2 i' j')"
    and "\<And>i'. i' \<le> length str2 \<Longrightarrow> cell m i' 0 = Some i'"
  shows "\<exists>m'. fill_rows str1 str2 i m = Inr m' \<and>
     (\<forall>i' \<le> length str2. \<forall>j' \<le> length str1. cell m' i' j' = Some (dist_prefix str1 str2 i' j'))"
  using assms
proof (induction str1 str2 i m rule: fill_rows.induct)
  case (1 str1 str2 i m)
  show ?case
  proof (cases "i \<le> length str2")
    case True
    have "\<exists>m'. fill_cols str1 str2 i 1 m = Inr m' \<and> dom m' = dom m \<and>
       (\<forall>i' j'. i' \<noteq> i \<longrightarrow> cell m' i' j' = cell m i' j') \<and>
       (\<forall>j' \<le> length str1. cell m' i j' = Some (dist_prefix str1 str2 i j'))"
    proof (rule fill_cols_ok)
      show "1 \<le> i" "i \<le> length str2" "(1::nat) \<le> 1" using "1.prems"(1) True by simp_all
      show "i \<in> dom m" using "1.prems"(2) True by auto
      show "cell m (i - 1) j' = Some (dist_prefix str1 str2 (i - 1) j')" if "j' \<le> length str1" for j'
        using that "1.prems"(1) True by (intro "1.prems"(3)) auto
      show "cell m i j' = Some (dist_prefix str1 str2 i j')" if "j' < 1" "j' \<le> length str1" for j'
        using that "1.prems"(4)[OF True] True by simp
    qed
    then obtain m1 where c: "fill_cols str1 str2 i 1 m = Inr m1" "dom m1 = dom m"
       "\<And>i' j'. i' \<noteq> i \<Longrightarrow> cell m1 i' j' = cell m i' j'"
       "\<And>j'. j' \<le> length str1 \<Longrightarrow> cell m1 i j' = Some (dist_prefix str1 str2 i j')"
      by blast
    have "\<exists>m'. fill_rows str1 str2 (Suc i) m1 = Inr m' \<and>
       (\<forall>i' \<le> length str2. \<forall>j' \<le> length str1. cell m' i' j' = Some (dist_prefix str1 str2 i' j'))"
    proof (rule "1.IH"[OF True c(1)])
      show "1 \<le> Suc i" by simp
      show "{0..length str2} \<subseteq> dom m1" using c(2) "1.prems"(2) by simp
      show "cell m1 i' j' = Some (dist_prefix str1 str2 i' j')"
        if "i' < Suc i" "i' \<le> length str2" "j' \<le> length str1" for i' j'
      proof (cases "i' = i")
        case True
        then show ?thesis using c(4)[OF that(3)] by simp
      next
        case False
        then show ?thesis using c(3)[OF False, of j'] "1.prems"(3)[of i' j'] that by simp
      qed
      show "cell m1 i' 0 = Some i'" if "i' \<le> length str2" for i'
      proof (cases "i' = i")
        case True
        then show ?thesis using c(4)[of 0] that by simp
      next
        case False
        then show ?thesis using c(3)[OF False, of 0] "1.prems"(4)[OF that] by simp
      qed
    qed
    then show ?thesis using True c(1) by (subst fill_rows.simps) simp
  next
    case False
    then have "fill_rows str1 str2 i m = Inr m" by (subst fill_rows.simps) simp
    moreover have "cell m i' j' = Some (dist_prefix str1 str2 i' j')"
      if "i' \<le> length str2" "j' \<le> length str1" for i' j'
      using that False by (intro "1.prems"(3)) auto
    ultimately show ?thesis by simp
  qed
qed

lemma levenshteinDistance_lev_rec: "levenshteinDistance str1 str2 = Inr (lev_rec str1 str2)"
proof -
  let ?m0 = "init_rows (length str2) 0 Map.empty"
  have d0: "dom ?m0 = {0..length str2}" by (simp add: init_rows_dom)
  then have "0 \<in> dom ?m0" by simp
  from init_cols_ok[OF this, of "length str1" 0]
  obtain m1 where m1: "init_cols (length str1) 0 ?m0 = Inr m1" "dom m1 = dom ?m0"
    "\<And>i' j'. cell m1 i' j' = (if i' = 0 \<and> 0 \<le> j' \<and> j' \<le> length str1 then Some j' else cell ?m0 i' j')"
    by blast
  have "\<exists>m'. fill_rows str1 str2 1 m1 = Inr m' \<and>
     (\<forall>i' \<le> length str2. \<forall>j' \<le> length str1. cell m' i' j' = Some (dist_prefix str1 str2 i' j'))"
  proof (rule fill_rows_ok)
    show "(1::nat) \<le> 1" by simp
    show "{0..length str2} \<subseteq> dom m1" using m1(2) d0 by simp
    show "cell m1 i' j' = Some (dist_prefix str1 str2 i' j')"
      if "i' < 1" "i' \<le> length str2" "j' \<le> length str1" for i' j'
      using that m1(3)[of i' j'] by simp
    show "cell m1 i' 0 = Some i'" if "i' \<le> length str2" for i'
      using that m1(3)[of i' 0] by (simp add: init_rows_cell)
  qed
  then obtain m2 where m2: "fill_rows str1 str2 1 m1 = Inr m2"
    "\<And>i' j'. i' \<le> length str2 \<Longrightarrow> j' \<le> length str1 \<Longrightarrow> cell m2 i' j' = Some (dist_prefix str1 str2 i' j')"
    by blast
  have "read_cell m2 (length str2) (length str1) = Inr (dist_prefix str1 str2 (length str2) (length str1))"
    by (rule read_cell_Some) (simp add: m2(2))
  then show ?thesis
    unfolding levenshteinDistance_def using m1(1) m2(1)
    by (simp add: dist_prefix_def lev_rec_sym[of str2 str1])
qed

section \<open>Scores and the best match\<close>

lemma calculateSimilarity_eq: "calculateSimilarity str1 str2 = Inr (similarity str1 str2)"
proof (cases "length str1 > length str2")
  case True
  then have "max (length str1) (length str2) = length str1" by simp
  then show ?thesis using True
    by (simp add: calculateSimilarity_def similarity_def levenshteinDistance_lev_rec)
next
  case False
  then have "max (length str1) (length str2) = length str2" by simp
  then show ?thesis using False
    by (simp add: calculateSimilarity_def similarity_def levenshteinDistance_lev_rec
        lev_rec_sym[of str2 str1])
qed

lemma similarity_sym: "similarity a b = similarity b a"
  by (simp add: similarity_def max.commute lev_rec_sym[of a b])

lemma similarity_same: "similarity s s = 1"
  by (simp add: similarity_def)

lemma similarity_bounds: "0 \<le> similarity a b \<and> similarity a b \<le> 1"
proof -
  let ?n = "max (length a) (length b)"
  have le: "lev_rec a b \<le> ?n" by (rule lev_rec_le_max)
  show ?thesis
  proof (cases "?n = 0")
    case True
    then show ?thesis by (simp add: similarity_def)
  next
    case False
    then have "0 < ?n" by (simp only: neq0_conv)
    then have pos: "(0::rat) < of_nat ?n" by (simp only: of_nat_0_less_iff)
    have "(of_nat (lev_rec a b) :: rat) \<le> of_nat ?n" using le by (simp only: of_nat_le_iff)
    then have "(0::rat) \<le> of_nat ?n - of_nat (lev_rec a b)"
      and "(of_nat ?n - of_nat (lev_rec a b) :: rat) \<le> of_nat ?n" by simp_all
    then have b: "0 \<le> (of_nat ?n - of_nat (lev_rec a b)) / (of_nat ?n :: rat)"
      "(of_nat ?n - of_nat (lev_rec a b)) / (of_nat ?n :: rat) \<le> 1"
      using pos by (simp_all add: divide_le_eq_1)
    have eq: "similarity a b = (of_nat ?n - of_nat (lev_rec a b)) / of_nat ?n"
      using False by (simp add: similarity_def)
    show ?thesis unfolding eq by (rule conjI[OF b])
  qed
qed

lemma forEach_command_Cons:
  "forEach_command input (c # cs) bm =
     forEach_command input cs
       (if similarity input c > score bm then \<lparr>command = Some c, score = similarity input c\<rparr> else bm)"
  by (simp add: calculateSimilarity_eq)

lemma forEach_command_total: "\<exists>r. forEach_command input cs bm = Inr r"
  by (induction cs arbitrary: bm) (simp_all add: calculateSimilarity_eq)

lemma forEach_command_cases:
  "forEach_command input cs bm = Inr r \<Longrightarrow>
     (r = bm \<and> (\<forall>c \<in> set cs. similarity input c \<le> score bm)) \<or>
     (\<exists>xs c ys. cs = xs @ c # ys \<and> r = \<lparr>command = Some c, score = similarity input c\<rparr> \<and>
        score bm < similarity input c \<and>
        (\<forall>x \<in> set xs. similarity input x < similarity input c) \<and>
        (\<forall>y \<in> set ys. similarity input y \<le> similarity input c))"
proof (induction cs arbitrary: bm)
  case Nil
  then show ?case by simp
next
  case (Cons c cs)
  let ?s = "similarity input c"
  show ?case
  proof (cases "?s > score bm")
    case True
    let ?bm = "\<lparr>command = Some c, score = ?s\<rparr>"
    have run: "forEach_command input cs ?bm = Inr r"
      using Cons.prems True by (simp add: calculateSimilarity_eq)
    from Cons.IH[OF run] show ?thesis
    proof
      assume "r = ?bm \<and> (\<forall>c \<in> set cs. similarity input c \<le> score ?bm)"
      then have "c # cs = [] @ c # cs \<and> r = ?bm \<and> score bm < ?s \<and>
          (\<forall>x \<in> set []. similarity input x < ?s) \<and> (\<forall>y \<in> set cs. similarity input y \<le> ?s)"
        using True by simp
      then show ?thesis by blast
    next
      assume "\<exists>xs c' ys. cs = xs @ c' # ys \<and> r = \<lparr>command = Some c', score = similarity input c'\<rparr> \<and>
        score ?bm < similarity input c' \<and>
        (\<forall>x \<in> set xs. similarity input x < similarity input c') \<and>
        (\<forall>y \<in> set ys. similarity input y \<le> similarity input c')"
      then obtain xs c' ys where d: "cs = xs @ c' # ys"
        "r = \<lparr>command = Some c', score = similarity input c'\<rparr>"
        "?s < similarity input c'"
        "\<forall>x \<in> set xs. similarity input x < similarity input c'"
        "\<forall>y \<in> set ys. similarity input y \<le> similarity input c'"
        by auto
      have "c # cs = (c # xs) @ c' # ys \<and> r = \<lparr>command = Some c', score = similarity input c'\<rparr> \<and>
        score bm < similarity input c' \<and>
        (\<forall>x \<in> set (c # xs). similarity input x < similarity input c') \<and>
        (\<forall>y \<in> set ys. similarity input y \<le> similarity input c')"
        using d True by auto
      then show ?thesis by blast
    qed
  next
    case False
    have run: "forEach_command input cs bm = Inr r"
      using Cons.prems False by (simp add: calculateSimilarity_eq)
    from Cons.IH[OF run] show ?thesis
    proof
      assume "r = bm \<and> (\<forall>c \<in> set cs. similarity input c \<le> score bm)"
      then show ?thesis using False by auto
    next
      assume "\<exists>xs c' ys. cs = xs @ c' # ys \<and> r = \<lparr>command = Some c', score = similarity input c'\<rparr> \<and>
        score bm < similarity input c' \<and>
        (\<forall>x \<in> set xs. similarity input x < similarity input c') \<and>
        (\<forall>y \<in> set ys. similarity input y \<le> similarity input c')"
      then obtain xs c' ys where d: "cs = xs @ c' # ys"
        "r = \<lparr>command = Some c', score = similarity input c'\<rparr>"
        "score bm < similarity input c'"
        "\<forall>x \<in> set xs. similarity input x < similarity input c'"
        "\<forall>y \<in> set ys. similarity input y \<le> similarity input c'"
        by auto
      have "c # cs = (c # xs) @ c' # ys \<and> r = \<lparr>command = Some c', score = similarity input c'\<rparr> \<and>
        score bm < similarity input c' \<and>
        (\<forall>x \<in> set (c # xs). similarity input x < similarity input c') \<and>
        (\<forall>y \<in> set ys. similarity input y \<le> similarity input c')"
        using d False by auto
      then show ?thesis by blast
    qed
  qed
qed



lemma findBestMatch_cases:
  "\<exists>r. findBestMatch input cs = Inr r \<and>
     ((r = \<lparr>command = None, score = 0\<rparr> \<and> (\<forall>c \<in> set cs. similarity input c = 0)) \<or>
      (\<exists>xs c ys. cs = xs @ c # ys \<and> r = \<lparr>command = Some c, score = similarity input c\<rparr> \<and>
        0 < similarity input c \<and>
        (\<forall>x \<in> set xs. similarity input x < similarity input c) \<and>
        (\<forall>y \<in> set ys. similarity input y \<le> similarity input c)))"
proof -
  obtain r where r: "forEach_command input cs \<lparr>command = None, score = 0\<rparr> = Inr r"
    using forEach_command_total by blast
  have z: "similarity input c \<le> 0 \<longleftrightarrow> similarity input c = 0" for c
    using similarity_bounds[of input c] by auto
  show ?thesis
    using forEach_command_cases[OF r] r by (simp add: findBestMatch_def z)
qed

section \<open>The claims\<close>

subsection \<open>levenshteinDistance\<close>

text \<open>
  Claim C2. For all strings \<open>a\<close> and \<open>b\<close>, \<^verbatim>\<open>levenshteinDistance(a, b)\<close> is the minimum
  number of single-character insertions, deletions and substitutions that transform \<open>a\<close>
  into \<open>b\<close>: that many operations do it, and no smaller number does. The distance of
  \<^verbatim>\<open>kitten\<close> and \<^verbatim>\<open>sitting\<close> is 3, and their similarity is \<open>(7 - 3) / 7\<close>.
\<close>

theorem levenshteinDistance_minimal_edits:
  "(\<exists>d. levenshteinDistance a b = Inr d \<and> spec_edits d a b \<and>
        (\<forall>n. spec_edits n a b \<longrightarrow> d \<le> n)) \<and>
   levenshteinDistance ''kitten'' ''sitting'' = Inr 3 \<and>
   calculateSimilarity ''kitten'' ''sitting'' = Inr ((7 - 3) / 7)"
proof -
  have "levenshteinDistance ''kitten'' ''sitting'' = Inr 3" by code_simp
  moreover have "calculateSimilarity ''kitten'' ''sitting'' = Inr ((7 - 3) / 7)" by code_simp
  moreover have "\<exists>d. levenshteinDistance a b = Inr d \<and> spec_edits d a b \<and>
        (\<forall>n. spec_edits n a b \<longrightarrow> d \<le> n)"
    using lev_rec_reached[of a b] lev_rec_lower[of _ a b]
    by (simp add: levenshteinDistance_lev_rec)
  ultimately show ?thesis by blast
qed

text \<open>
  At \<^verbatim>\<open>kitten\<close> and \<^verbatim>\<open>sitting\<close>: three operations transform the one into the other,
  two do not.
\<close>

theorem levenshteinDistance_minimal_edits_witness:
  "spec_edits 3 ''kitten'' ''sitting'' \<and> \<not> spec_edits 2 ''kitten'' ''sitting''"
proof -
  have e: "levenshteinDistance ''kitten'' ''sitting'' = Inr 3" by code_simp
  obtain d where d: "levenshteinDistance ''kitten'' ''sitting'' = Inr d"
    "spec_edits d ''kitten'' ''sitting''" "\<forall>n. spec_edits n ''kitten'' ''sitting'' \<longrightarrow> d \<le> n"
    using levenshteinDistance_minimal_edits[of "''kitten''" "''sitting''"] by blast
  have "d = 3" using d(1) e by simp
  then show ?thesis using d(2,3) by auto
qed

text \<open>
  Claim C9. The matcher is total: for all strings and every catalog,
  \<^verbatim>\<open>levenshteinDistance\<close>, \<^verbatim>\<open>calculateSimilarity\<close> and \<^verbatim>\<open>findBestMatch\<close> return a value.
  The three functions are total recursive functions, so they terminate; they return no
  fault, so no read of the table is outside the cells written before, and nothing is
  thrown.
\<close>

theorem matcher_total:
  "(\<exists>d. levenshteinDistance a b = Inr d) \<and>
   (\<exists>s. calculateSimilarity a b = Inr s) \<and>
   (\<exists>r. findBestMatch input commands = Inr r)"
  using forEach_command_total[of input commands]
  by (simp add: levenshteinDistance_lev_rec calculateSimilarity_eq findBestMatch_def)

subsection \<open>calculateSimilarity\<close>

text \<open>
  Claim C3. For all strings \<open>a\<close> and \<open>b\<close>, \<^verbatim>\<open>calculateSimilarity\<close> yields a score, and
  it yields the same score when its two arguments are swapped, strings of equal length
  included.
\<close>

theorem calculateSimilarity_symmetric:
  "\<exists>s. calculateSimilarity a b = Inr s \<and> calculateSimilarity b a = Inr s"
  by (simp add: calculateSimilarity_eq similarity_sym[of a b])

text \<open>
  Claim C4. For all strings \<open>a\<close> and \<open>b\<close>, the score of \<^verbatim>\<open>calculateSimilarity(a, b)\<close> lies
  in the closed interval from 0 to 1, because the Levenshtein distance of the two strings
  is at most the length of the longer one.
\<close>

theorem calculateSimilarity_unit_interval:
  "\<exists>d s. levenshteinDistance a b = Inr d \<and> d \<le> max (length a) (length b) \<and>
          calculateSimilarity a b = Inr s \<and> 0 \<le> s \<and> s \<le> 1"
  using similarity_bounds[of a b] lev_rec_le_max[of a b]
  by (simp add: calculateSimilarity_eq levenshteinDistance_lev_rec)

text \<open>
  Claim C8. For every string \<open>s\<close>, \<^verbatim>\<open>calculateSimilarity(s, s)\<close> is 1; in particular the
  similarity of the empty string with itself is 1.
\<close>

theorem calculateSimilarity_identical:
  "calculateSimilarity s s = Inr 1 \<and> calculateSimilarity ([] :: 'a list) [] = Inr 1"
  by (simp add: calculateSimilarity_eq similarity_same)

subsection \<open>findBestMatch\<close>

text \<open>
  Claim C7. For every input, \<^verbatim>\<open>findBestMatch\<close> with an empty catalog returns the phrase
  \<^verbatim>\<open>null\<close> and the score 0.
\<close>

theorem findBestMatch_empty_catalog:
  "findBestMatch input [] = Inr \<lparr>command = None, score = 0\<rparr>"
  by (simp add: findBestMatch_def)

text \<open>
  Claim C1, as stated, fails: with the one-candidate catalog \<^verbatim>\<open>["abc"]\<close> and the input
  \<^verbatim>\<open>xyz\<close> the only candidate has similarity 0, which is not greater than the initial
  score 0, so the phrase stays \<^verbatim>\<open>null\<close> although the catalog is not empty.
\<close>

theorem findBestMatch_absent_counterexample:
  "[''abc''] \<noteq> [] \<and> findBestMatch ''xyz'' [''abc''] = Inr \<lparr>command = None, score = 0\<rparr>"
proof -
  have "findBestMatch ''xyz'' [''abc''] = Inr \<lparr>command = None, score = 0\<rparr>" by code_simp
  then show ?thesis by simp
qed

text \<open>
  Claim C1, amended. For every input and every catalog, \<^verbatim>\<open>findBestMatch\<close> returns a
  record. When every candidate has similarity 0 to the input (in particular when the
  catalog is empty), the phrase is \<^verbatim>\<open>null\<close> and the score is 0. Otherwise the phrase is
  present, it is a candidate of the catalog, the score is its similarity to the input,
  and no candidate has a higher similarity.
\<close>

theorem findBestMatch_phrase_absent_iff:
  "\<exists>r. findBestMatch input commands = Inr r \<and>
     (if \<forall>c \<in> set commands. calculateSimilarity input c = Inr 0
      then r = \<lparr>command = None, score = 0\<rparr>
      else \<exists>p. command r = Some p \<and> p \<in> set commands \<and>
             calculateSimilarity input p = Inr (score r) \<and>
             (\<forall>c \<in> set commands. \<exists>s. calculateSimilarity input c = Inr s \<and> s \<le> score r))"
proof -
  from findBestMatch_cases[of input commands] obtain r where
    r: "findBestMatch input commands = Inr r"
    and c: "(r = \<lparr>command = None, score = 0\<rparr> \<and> (\<forall>c \<in> set commands. similarity input c = 0)) \<or>
      (\<exists>xs c ys. commands = xs @ c # ys \<and> r = \<lparr>command = Some c, score = similarity input c\<rparr> \<and>
        0 < similarity input c \<and>
        (\<forall>x \<in> set xs. similarity input x < similarity input c) \<and>
        (\<forall>y \<in> set ys. similarity input y \<le> similarity input c))"
    by blast
  from c have "if \<forall>c \<in> set commands. similarity input c = 0
      then r = \<lparr>command = None, score = 0\<rparr>
      else \<exists>p. command r = Some p \<and> p \<in> set commands \<and> similarity input p = score r \<and>
             (\<forall>c \<in> set commands. similarity input c \<le> score r)"
  proof
    assume "r = \<lparr>command = None, score = 0\<rparr> \<and> (\<forall>c \<in> set commands. similarity input c = 0)"
    then show ?thesis by simp
  next
    assume "\<exists>xs c ys. commands = xs @ c # ys \<and> r = \<lparr>command = Some c, score = similarity input c\<rparr> \<and>
        0 < similarity input c \<and>
        (\<forall>x \<in> set xs. similarity input x < similarity input c) \<and>
        (\<forall>y \<in> set ys. similarity input y \<le> similarity input c)"
    then obtain xs c ys where d: "commands = xs @ c # ys"
      "r = \<lparr>command = Some c, score = similarity input c\<rparr>" "0 < similarity input c"
      "\<forall>x \<in> set xs. similarity input x < similarity input c"
      "\<forall>y \<in> set ys. similarity input y \<le> similarity input c"
      by blast
    have "\<not> (\<forall>c \<in> set commands. similarity input c = 0)" using d(1,3) by auto
    moreover have "command r = Some c \<and> c \<in> set commands \<and> similarity input c = score r \<and>
             (\<forall>c \<in> set commands. similarity input c \<le> score r)"
      using d by (auto intro: less_imp_le)
    ultimately show ?thesis by auto
  qed
  then show ?thesis using r by (simp add: calculateSimilarity_eq)
qed

text \<open>
  Both cases occur: the catalog \<^verbatim>\<open>["abc"]\<close> with the input \<^verbatim>\<open>xyz\<close>, and a catalog with
  a near match.
\<close>

theorem findBestMatch_phrase_absent_iff_witness:
  "calculateSimilarity ''xyz'' ''abc'' = Inr 0 \<and>
   findBestMatch ''xyz'' [''abc''] = Inr \<lparr>command = None, score = 0\<rparr> \<and>
   calculateSimilarity ''skils'' ''skills'' = Inr (5 / 6) \<and>
   (\<exists>r. findBestMatch ''skils'' [''skills'', ''go home''] = Inr r \<and> command r \<noteq> None)"
proof -
  have a: "calculateSimilarity ''xyz'' ''abc'' = Inr 0" by code_simp
  have b: "calculateSimilarity ''skils'' ''skills'' = Inr (5 / 6)" by code_simp
  show ?thesis
    using findBestMatch_phrase_absent_iff[of "''xyz''" "[''abc'']"]
      findBestMatch_phrase_absent_iff[of "''skils''" "[''skills'', ''go home'']"] a b
    by auto
qed




text \<open>
  Claim C10. For every input and every catalog, the score returned by \<^verbatim>\<open>findBestMatch\<close>
  is at least 0 and at least the similarity of the input to every candidate; and when
  the returned phrase is present, it is a member of the catalog and the score is its
  similarity to the input.
\<close>

theorem findBestMatch_score_upper_bound:
  "\<exists>r. findBestMatch input commands = Inr r \<and> 0 \<le> score r \<and>
     (\<forall>c \<in> set commands. \<exists>s. calculateSimilarity input c = Inr s \<and> s \<le> score r) \<and>
     (\<forall>p. command r = Some p \<longrightarrow>
        p \<in> set commands \<and> calculateSimilarity input p = Inr (score r))"
proof -
  from findBestMatch_cases[of input commands] obtain r where
    r: "findBestMatch input commands = Inr r"
    and c: "(r = \<lparr>command = None, score = 0\<rparr> \<and> (\<forall>c \<in> set commands. similarity input c = 0)) \<or>
      (\<exists>xs c ys. commands = xs @ c # ys \<and> r = \<lparr>command = Some c, score = similarity input c\<rparr> \<and>
        0 < similarity input c \<and>
        (\<forall>x \<in> set xs. similarity input x < similarity input c) \<and>
        (\<forall>y \<in> set ys. similarity input y \<le> similarity input c))"
    by blast
  from c have "0 \<le> score r \<and>
     (\<forall>c \<in> set commands. similarity input c \<le> score r) \<and>
     (\<forall>p. command r = Some p \<longrightarrow> p \<in> set commands \<and> similarity input p = score r)"
  proof
    assume "r = \<lparr>command = None, score = 0\<rparr> \<and> (\<forall>c \<in> set commands. similarity input c = 0)"
    then show ?thesis by simp
  next
    assume "\<exists>xs c ys. commands = xs @ c # ys \<and> r = \<lparr>command = Some c, score = similarity input c\<rparr> \<and>
        0 < similarity input c \<and>
        (\<forall>x \<in> set xs. similarity input x < similarity input c) \<and>
        (\<forall>y \<in> set ys. similarity input y \<le> similarity input c)"
    then obtain xs c ys where d: "commands = xs @ c # ys"
      "r = \<lparr>command = Some c, score = similarity input c\<rparr>" "0 < similarity input c"
      "\<forall>x \<in> set xs. similarity input x < similarity input c"
      "\<forall>y \<in> set ys. similarity input y \<le> similarity input c"
      by blast
    then show ?thesis by (auto intro: less_imp_le)
  qed
  then show ?thesis using r by (simp add: calculateSimilarity_eq) 
qed

text \<open>
  At the input \<^verbatim>\<open>skils\<close> and a catalog of two phrases.
\<close>

theorem findBestMatch_score_upper_bound_witness:
  "findBestMatch ''skils'' [''skills'', ''go home''] = Inr \<lparr>command = Some ''skills'', score = 5 / 6\<rparr> \<and>
   ''skills'' \<in> set [''skills'', ''go home''] \<and>
   calculateSimilarity ''skils'' ''skills'' = Inr (5 / 6) \<and>
   (\<exists>s. calculateSimilarity ''skils'' ''go home'' = Inr s \<and> s \<le> 5 / 6)"
proof -
  have e: "findBestMatch ''skils'' [''skills'', ''go home''] = Inr \<lparr>command = Some ''skills'', score = 5 / 6\<rparr>"
    by code_simp
  show ?thesis
    using findBestMatch_score_upper_bound[of "''skils''" "[''skills'', ''go home'']"] e
    by simp
qed

subsection \<open>processVoiceCommand\<close>

text \<open>
  Claim C6. The dispatcher invokes an action if and only if the score of the best match
  is strictly greater than \<open>0.6\<close>. Then it announces the winning phrase and invokes the
  action bound to it. When the score is at most \<open>0.6\<close>, it invokes no action and shows
  the notification that the command was not recognized.
\<close>

theorem processVoiceCommand_threshold:
  "\<exists>r. findBestMatch cmd (map fst voiceCommands) = Inr r \<and>
     ((\<exists>act. Invoke act \<in> set (processVoiceCommand lit voiceCommands cmd)) \<longleftrightarrow> 6 / 10 < score r) \<and>
     (if 6 / 10 < score r
      then \<exists>p act. command r = Some p \<and> map_of voiceCommands p = Some act \<and>
             processVoiceCommand lit voiceCommands cmd =
               [ShowNotification (lit ''Executing: '' @ p) (lit ''success''), Invoke act]
      else processVoiceCommand lit voiceCommands cmd =
             [ShowNotification (lit ''Command not recognized'') (lit ''warning'')])"
proof -
  from findBestMatch_cases[of cmd "map fst voiceCommands"] obtain r where
    r: "findBestMatch cmd (map fst voiceCommands) = Inr r"
    and c: "(r = \<lparr>command = None, score = 0\<rparr> \<and> (\<forall>c \<in> set (map fst voiceCommands). similarity cmd c = 0)) \<or>
      (\<exists>xs c ys. map fst voiceCommands = xs @ c # ys \<and> r = \<lparr>command = Some c, score = similarity cmd c\<rparr> \<and>
        0 < similarity cmd c \<and>
        (\<forall>x \<in> set xs. similarity cmd x < similarity cmd c) \<and>
        (\<forall>y \<in> set ys. similarity cmd y \<le> similarity cmd c))"
    by blast
  show ?thesis
  proof (cases "6 / 10 < score r")
    case False
    then show ?thesis using r by (simp add: processVoiceCommand_def)
  next
    case True
    with c obtain xs p ys where d: "map fst voiceCommands = xs @ p # ys" "command r = Some p"
      by auto
    then have "p \<in> set (map fst voiceCommands)" by simp
    then have "p \<in> fst ` set voiceCommands" by simp
    then obtain act where act: "map_of voiceCommands p = Some act"
      by (metis domD dom_map_of_conv_image_fst)
    show ?thesis using r True d(2) act by (simp add: processVoiceCommand_def)
  qed
qed

text \<open>
  An utterance above the threshold and one below it.
\<close>

theorem processVoiceCommand_threshold_witness:
  "processVoiceCommand id [(''skills'', 1::nat), (''go home'', 2)] ''skils'' =
     [ShowNotification ''Executing: skills'' ''success'', Invoke 1] \<and>
   processVoiceCommand id [(''skills'', 1::nat), (''go home'', 2)] ''xyz'' =
     [ShowNotification ''Command not recognized'' ''warning'']"
proof -
  have a: "findBestMatch ''skils'' (map fst [(''skills'', 1::nat), (''go home'', 2)]) =
      Inr \<lparr>command = Some ''skills'', score = 5 / 6\<rparr>" by code_simp
  have b: "findBestMatch ''xyz'' (map fst [(''skills'', 1::nat), (''go home'', 2)]) =
      Inr \<lparr>command = None, score = 0\<rparr>" by code_simp
  show ?thesis
    using processVoiceCommand_threshold[of "''skils''" "[(''skills'', 1::nat), (''go home'', 2)]" id]
      processVoiceCommand_threshold[of "''xyz''" "[(''skills'', 1::nat), (''go home'', 2)]" id]
    unfolding a b by simp
qed

end
